theory Spec2Isabelle
  imports Complex_Main
begin

section \<open>The Gillespie simulation of the wise/risky SIR model\<close>

text \<open>
  The development embeds the function \<open>gillespie\<close> of \<^verbatim>\<open>GillespieJupyter.ipynb\<close>.
  Python floats are modelled by exact real numbers, extended by the three special
  values that the time variable can take (\<open>inf\<close>, \<open>-inf\<close>, \<open>nan\<close>); rounding is not
  modelled. The species counts are Python integers. The two calls of
  \<^verbatim>\<open>np.random.uniform(0.0, 1.0)\<close> per iteration read an explicit sequence of draws
  \<open>u\<close>: the iteration that starts with counter \<open>it\<close> reads \<open>u (2 * it)\<close> as \<open>r_1\<close> and
  \<open>u (2 * it + 1)\<close> as \<open>r_2\<close>. NumPy draws from the half-open interval \<open>[0, 1)\<close>.
\<close>

subsection \<open>Values\<close>

datatype error = ZeroDivisionError | IndexError

text \<open>A NumPy float64 that may be infinite or not a number.\<close>

datatype fval = NaN | NegInf | Fin real | PosInf

text \<open>\<^verbatim>\<open>np.log\<close>: \<open>-inf\<close> at zero and \<open>nan\<close> below (both with a warning, no exception).\<close>

definition np_log :: "real \<Rightarrow> fval" where
  "np_log r = (if r < 0 then NaN else if r = 0 then NegInf else Fin (ln r))"

fun f_neg :: "fval \<Rightarrow> fval" where
  "f_neg NaN = NaN"
| "f_neg NegInf = PosInf"
| "f_neg (Fin x) = Fin (- x)"
| "f_neg PosInf = NegInf"

text \<open>Division of a float64 by a finite Python float that is not zero.\<close>

fun f_div :: "fval \<Rightarrow> real \<Rightarrow> fval" where
  "f_div NaN w = NaN"
| "f_div NegInf w = (if 0 < w then NegInf else PosInf)"
| "f_div (Fin x) w = Fin (x / w)"
| "f_div PosInf w = (if 0 < w then PosInf else NegInf)"

fun f_add :: "fval \<Rightarrow> fval \<Rightarrow> fval" where
  "f_add NaN y = NaN"
| "f_add x NaN = NaN"
| "f_add (Fin x) (Fin y) = Fin (x + y)"
| "f_add (Fin x) y = y"
| "f_add x (Fin y) = x"
| "f_add NegInf NegInf = NegInf"
| "f_add PosInf PosInf = PosInf"
| "f_add NegInf PosInf = NaN"
| "f_add PosInf NegInf = NaN"

text \<open>The comparison \<^verbatim>\<open>t < T\<close> with a finite right-hand side; false on \<open>nan\<close>.\<close>

fun f_less :: "fval \<Rightarrow> real \<Rightarrow> bool" where
  "f_less NaN y = False"
| "f_less NegInf y = True"
| "f_less (Fin x) y = (x < y)"
| "f_less PosInf y = False"

subsection \<open>Parameters, rows and the state of the loop\<close>

text \<open>The seven keyword arguments of \<open>gillespie\<close>.\<close>

record rates =
  rWiseToRisky :: real
  rRiskyToWise :: real
  rWiseToInfected :: real
  rRiskyToInfected :: real
  rCure :: real
  rFatalities :: real
  rRecover :: real

definition N :: int where "N = 200"
definition T :: real where "T = 100"
definition MAXITER :: nat where "MAXITER = 10000"

text \<open>A row of \<open>SIR_data\<close>, with the column names of the plotting section.\<close>

record row =
  time :: fval
  nW :: int
  nI :: int
  nR :: int
  nS :: int
  nD :: int

text \<open>The local variables of \<open>gillespie\<close> that the loop changes (\<open>t_now\<close> is \<open>t\<close>).\<close>

record state =
  t_now :: fval
  n_W :: int
  n_I :: int
  n_R :: int
  n_S :: int
  n_D :: int
  it :: nat
  SIR_data :: "row list"

definition zero_row :: row where
  "zero_row = \<lparr>time = Fin 0, nW = 0, nI = 0, nR = 0, nS = 0, nD = 0\<rparr>"

text \<open>The list \<^verbatim>\<open>[t, n_W, n_I, n_R, n_S, n_D]\<close> that is stored as a row.\<close>

definition row_of :: "state \<Rightarrow> row" where
  "row_of s = \<lparr>time = t_now s, nW = n_W s, nI = n_I s, nR = n_R s, nS = n_S s, nD = n_D s\<rparr>"

text \<open>
  The state before the loop: \<open>n_I = 1\<close>, \<open>n_D = 0\<close>, \<open>n_S = 0\<close>, \<open>n_R = 50\<close>,
  \<open>n_W = N - n_I - n_R\<close>, a zero buffer of \<open>MAXITER\<close> rows whose row 0 is the
  initial sample, and \<open>it = 0\<close>. It does not depend on the arguments.
\<close>

definition init_state :: state where
  "init_state =
     (let I0 = 1; D0 = 0; S0 = 0; R0 = 50; W0 = N - I0 - R0;
          s = \<lparr>t_now = Fin 0, n_W = W0, n_I = I0, n_R = R0, n_S = S0, n_D = D0,
                it = 0, SIR_data = replicate MAXITER zero_row\<rparr>
      in s\<lparr>SIR_data := (SIR_data s)[0 := row_of s]\<rparr>)"

subsection \<open>Propensities\<close>

definition w1 :: "rates \<Rightarrow> state \<Rightarrow> real" where
  "w1 rs s = rWiseToRisky rs * real_of_int (n_W s)"

definition w2 :: "rates \<Rightarrow> state \<Rightarrow> real" where
  "w2 rs s = rRiskyToWise rs * real_of_int (n_R s)"

definition w3 :: "rates \<Rightarrow> state \<Rightarrow> real" where
  "w3 rs s = rRiskyToInfected rs * real_of_int (n_I s) * real_of_int (n_R s)"

definition w4 :: "rates \<Rightarrow> state \<Rightarrow> real" where
  "w4 rs s = rWiseToInfected rs * real_of_int (n_I s) * real_of_int (n_W s)"

definition w5 :: "rates \<Rightarrow> state \<Rightarrow> real" where
  "w5 rs s = rCure rs * real_of_int (n_I s)"

definition w6 :: "rates \<Rightarrow> state \<Rightarrow> real" where
  "w6 rs s = rFatalities rs * real_of_int (n_I s)"

definition w7 :: "rates \<Rightarrow> state \<Rightarrow> real" where
  "w7 rs s = rRecover rs * real_of_int (n_I s)"

definition W_tot :: "rates \<Rightarrow> state \<Rightarrow> real" where
  "W_tot rs s = w1 rs s + w2 rs s + w3 rs s + w4 rs s + w5 rs s + w6 rs s + w7 rs s"

subsection \<open>The seven reaction branches\<close>

text \<open>The guards of the seven \<^verbatim>\<open>if\<close> statements, over the weights of the iteration.\<close>

definition guard1 :: "rates \<Rightarrow> state \<Rightarrow> real \<Rightarrow> bool" where
  "guard1 rs s r_2 \<longleftrightarrow> r_2 < w1 rs s / W_tot rs s"

definition guard2 :: "rates \<Rightarrow> state \<Rightarrow> real \<Rightarrow> bool" where
  "guard2 rs s r_2 \<longleftrightarrow>
     r_2 \<ge> w1 rs s / W_tot rs s \<and> r_2 < (w1 rs s + w2 rs s) / W_tot rs s"

definition guard3 :: "rates \<Rightarrow> state \<Rightarrow> real \<Rightarrow> bool" where
  "guard3 rs s r_2 \<longleftrightarrow>
     r_2 \<ge> (w1 rs s + w2 rs s) / W_tot rs s \<and>
     r_2 < (w1 rs s + w2 rs s + w3 rs s) / W_tot rs s"

definition guard4 :: "rates \<Rightarrow> state \<Rightarrow> real \<Rightarrow> bool" where
  "guard4 rs s r_2 \<longleftrightarrow>
     r_2 \<ge> (w1 rs s + w2 rs s + w3 rs s) / W_tot rs s \<and>
     r_2 < (w1 rs s + w2 rs s + w3 rs s + w4 rs s) / W_tot rs s"

definition guard5 :: "rates \<Rightarrow> state \<Rightarrow> real \<Rightarrow> bool" where
  "guard5 rs s r_2 \<longleftrightarrow>
     r_2 \<ge> (w1 rs s + w2 rs s + w3 rs s + w4 rs s) / W_tot rs s \<and>
     r_2 < (w1 rs s + w2 rs s + w3 rs s + w4 rs s + w5 rs s) / W_tot rs s"

definition guard6 :: "rates \<Rightarrow> state \<Rightarrow> real \<Rightarrow> bool" where
  "guard6 rs s r_2 \<longleftrightarrow>
     r_2 \<ge> (w1 rs s + w2 rs s + w3 rs s + w4 rs s + w5 rs s) / W_tot rs s \<and>
     r_2 < (w1 rs s + w2 rs s + w3 rs s + w4 rs s + w5 rs s + w6 rs s) / W_tot rs s"

definition guard7 :: "rates \<Rightarrow> state \<Rightarrow> real \<Rightarrow> bool" where
  "guard7 rs s r_2 \<longleftrightarrow>
     r_2 > (w1 rs s + w2 rs s + w3 rs s + w4 rs s + w5 rs s + w6 rs s) / W_tot rs s"

text \<open>The bodies of the seven \<^verbatim>\<open>if\<close> statements.\<close>

definition W_to_R :: "state \<Rightarrow> state" where
  "W_to_R s = (let s = s\<lparr>n_W := n_W s - 1\<rparr> in s\<lparr>n_R := n_R s + 1\<rparr>)"

definition R_to_W :: "state \<Rightarrow> state" where
  "R_to_W s = (let s = s\<lparr>n_R := n_R s - 1\<rparr> in s\<lparr>n_W := n_W s + 1\<rparr>)"

definition R_to_I :: "state \<Rightarrow> state" where
  "R_to_I s = (let s = s\<lparr>n_R := n_R s - 1\<rparr> in s\<lparr>n_I := n_I s + 1\<rparr>)"

definition W_to_I :: "state \<Rightarrow> state" where
  "W_to_I s = (let s = s\<lparr>n_W := n_W s - 1\<rparr> in s\<lparr>n_I := n_I s + 1\<rparr>)"

definition I_to_W :: "state \<Rightarrow> state" where
  "I_to_W s = (let s = s\<lparr>n_I := n_I s - 1\<rparr> in s\<lparr>n_W := n_W s + 1\<rparr>)"

definition I_to_D :: "state \<Rightarrow> state" where
  "I_to_D s = (let s = s\<lparr>n_I := n_I s - 1\<rparr> in s\<lparr>n_D := n_D s + 1\<rparr>)"

definition I_to_S :: "state \<Rightarrow> state" where
  "I_to_S s = (let s = s\<lparr>n_I := n_I s - 1\<rparr> in s\<lparr>n_S := n_S s + 1\<rparr>)"

text \<open>A Python \<^verbatim>\<open>if\<close> statement without \<^verbatim>\<open>else\<close>, as a state transformer.\<close>

definition when_do :: "bool \<Rightarrow> (state \<Rightarrow> state) \<Rightarrow> state \<Rightarrow> state" where
  "when_do g f s = (if g then f s else s)"

text \<open>
  The choice of the reaction: seven \<^verbatim>\<open>if\<close> statements in sequence (not \<^verbatim>\<open>elif\<close>).
  The guards read the weights \<open>w1 .. w7\<close> and \<open>W\<close> computed before the first of them,
  that is, in the state \<open>s0\<close> at the start of the iteration.
\<close>

definition choose_reaction :: "rates \<Rightarrow> state \<Rightarrow> real \<Rightarrow> state \<Rightarrow> state" where
  "choose_reaction rs s0 r_2 s =
     (let s = when_do (guard1 rs s0 r_2) W_to_R s;
          s = when_do (guard2 rs s0 r_2) R_to_W s;
          s = when_do (guard3 rs s0 r_2) R_to_I s;
          s = when_do (guard4 rs s0 r_2) W_to_I s;
          s = when_do (guard5 rs s0 r_2) I_to_W s;
          s = when_do (guard6 rs s0 r_2) I_to_D s;
          s = when_do (guard7 rs s0 r_2) I_to_S s
      in s)"

subsection \<open>The loop\<close>

text \<open>The time increment \<^verbatim>\<open>dt = -np.log(r_1) / W\<close>, for \<open>W\<close> other than zero.\<close>

definition waiting_time :: "rates \<Rightarrow> real \<Rightarrow> state \<Rightarrow> fval" where
  "waiting_time rs r_1 s = f_div (f_neg (np_log r_1)) (W_tot rs s)"

text \<open>
  One pass through the body of the \<^verbatim>\<open>while\<close> loop after the \<^verbatim>\<open>break\<close> test, with the
  draws \<open>r_1\<close> and \<open>r_2\<close>. When \<open>W\<close> is zero, \<^verbatim>\<open>-np.log(r_1) / W\<close> is a NumPy division
  (infinite, with a warning), and the first Python float division \<^verbatim>\<open>w1 / W\<close> raises
  \<open>ZeroDivisionError\<close>. The row write raises \<open>IndexError\<close> when \<open>it\<close> is not an index
  of the buffer.
\<close>

definition body :: "rates \<Rightarrow> real \<Rightarrow> real \<Rightarrow> state \<Rightarrow> error + state" where
  "body rs r_1 r_2 s0 =
     (let s = s0\<lparr>it := it s0 + 1\<rparr>
      in if W_tot rs s0 = 0 then Inl ZeroDivisionError
         else
           let dt = waiting_time rs r_1 s0;
               s = s\<lparr>t_now := f_add (t_now s) dt\<rparr>;
               s = choose_reaction rs s0 r_2 s
           in if it s < length (SIR_data s)
              then Inr (s\<lparr>SIR_data := (SIR_data s)[it s := row_of s]\<rparr>)
              else Inl IndexError)"

text \<open>The test of the \<^verbatim>\<open>while\<close> statement.\<close>

definition loop_cond :: "state \<Rightarrow> bool" where
  "loop_cond s \<longleftrightarrow> f_less (t_now s) T \<and> it s < MAXITER"

function main_loop :: "rates \<Rightarrow> (nat \<Rightarrow> real) \<Rightarrow> state \<Rightarrow> error + state" where
  "main_loop rs u s =
     (if loop_cond s then
        if n_I s = 0 then Inr s
        else (case body rs (u (2 * it s)) (u (2 * it s + 1)) s of
                Inl e \<Rightarrow> Inl e
              | Inr s' \<Rightarrow> main_loop rs u s')
      else Inr s)"
  by pat_completeness auto
termination
proof (relation "measure (\<lambda>(rs, u, s). MAXITER - it s)")
  show "wf (measure (\<lambda>(rs :: rates, u :: nat \<Rightarrow> real, s). MAXITER - it s))"
    by simp
next
  fix rs :: rates and u :: "nat \<Rightarrow> real" and s s' :: state
  assume c: "loop_cond s" and b: "body rs (u (2 * it s)) (u (2 * it s + 1)) s = Inr s'"
  have keep: "it (when_do g f x) = it x" if "it (f x) = it x" for g f x
    using that by (simp add: when_do_def)
  have "it (choose_reaction rs s r x) = it x" for r x
    by (simp add: choose_reaction_def Let_def keep W_to_R_def R_to_W_def R_to_I_def
        W_to_I_def I_to_W_def I_to_D_def I_to_S_def)
  with b have "it s' = Suc (it s)"
    by (auto simp: body_def Let_def split: if_splits)
  moreover from c have "it s < MAXITER"
    by (simp add: loop_cond_def)
  ultimately show "((rs, u, s'), (rs, u, s)) \<in> measure (\<lambda>(rs, u, s). MAXITER - it s)"
    by simp
qed

text \<open>The slice \<^verbatim>\<open>SIR_data[:it,:]\<close> that is plotted.\<close>

definition SIR :: "state \<Rightarrow> row list" where
  "SIR s = take (it s) (SIR_data s)"

text \<open>
  The function up to the plotting section: the state at the end of the loop, or the
  exception that leaves the function.
\<close>

definition gillespie :: "rates \<Rightarrow> (nat \<Rightarrow> real) \<Rightarrow> error + state" where
  "gillespie rs u = main_loop rs u init_state"

subsection \<open>Runs, samples and conditions on the inputs\<close>

text \<open>
  The states that the loop of a run with rates \<open>rs\<close> and draws \<open>u\<close> passes through at
  the \<^verbatim>\<open>while\<close> test: the initial state, and the state after each completed iteration.
\<close>

inductive reachable :: "rates \<Rightarrow> (nat \<Rightarrow> real) \<Rightarrow> state \<Rightarrow> bool" for rs u where
  start: "reachable rs u init_state"
| iterate: "reachable rs u s \<Longrightarrow> loop_cond s \<Longrightarrow> n_I s \<noteq> 0 \<Longrightarrow>
     body rs (u (2 * it s)) (u (2 * it s + 1)) s = Inr s' \<Longrightarrow> reachable rs u s'"

code_pred reachable .

text \<open>The rows written so far: the initial sample and one row per completed iteration.\<close>

definition recorded :: "state \<Rightarrow> row list" where
  "recorded s = take (Suc (it s)) (SIR_data s)"

definition counts :: "state \<Rightarrow> int list" where
  "counts s = [n_W s, n_R s, n_I s, n_S s, n_D s]"

definition row_counts :: "row \<Rightarrow> int list" where
  "row_counts r = [nW r, nR r, nI r, nS r, nD r]"

text \<open>The reaction that an iteration starting in \<open>s\<close> applies to the counts.\<close>

definition fired :: "rates \<Rightarrow> real \<Rightarrow> state \<Rightarrow> state" where
  "fired rs r_2 s = choose_reaction rs s r_2 s"

text \<open>The seven guards of an iteration, in the order of the \<^verbatim>\<open>if\<close> statements.\<close>

definition guards :: "rates \<Rightarrow> state \<Rightarrow> real \<Rightarrow> bool list" where
  "guards rs s r_2 = [guard1 rs s r_2, guard2 rs s r_2, guard3 rs s r_2, guard4 rs s r_2,
     guard5 rs s r_2, guard6 rs s r_2, guard7 rs s r_2]"

definition counts_nonneg :: "state \<Rightarrow> bool" where
  "counts_nonneg s \<longleftrightarrow> 0 \<le> n_W s \<and> 0 \<le> n_R s \<and> 0 \<le> n_I s \<and> 0 \<le> n_S s \<and> 0 \<le> n_D s"

definition row_nonneg :: "row \<Rightarrow> bool" where
  "row_nonneg r \<longleftrightarrow> 0 \<le> nW r \<and> 0 \<le> nR r \<and> 0 \<le> nI r \<and> 0 \<le> nS r \<and> 0 \<le> nD r"

text \<open>The sink columns \<open>S\<close> and \<open>D\<close> of a row are both at most those of another.\<close>

definition sink_le :: "row \<Rightarrow> row \<Rightarrow> bool" where
  "sink_le x y \<longleftrightarrow> nS x \<le> nS y \<and> nD x \<le> nD y"

definition rates_nonneg :: "rates \<Rightarrow> bool" where
  "rates_nonneg rs \<longleftrightarrow>
     0 \<le> rWiseToRisky rs \<and> 0 \<le> rRiskyToWise rs \<and> 0 \<le> rWiseToInfected rs \<and>
     0 \<le> rRiskyToInfected rs \<and> 0 \<le> rCure rs \<and> 0 \<le> rFatalities rs \<and> 0 \<le> rRecover rs"

text \<open>Draws as \<^verbatim>\<open>np.random.uniform(0.0, 1.0)\<close> returns them: in \<open>[0, 1)\<close>.\<close>

definition unit_draws :: "(nat \<Rightarrow> real) \<Rightarrow> bool" where
  "unit_draws u \<longleftrightarrow> (\<forall>i. 0 \<le> u i \<and> u i < 1)"

subsection \<open>The selection rule of the algorithm description\<close>

definition propensities :: "rates \<Rightarrow> state \<Rightarrow> real list" where
  "propensities rs s = [w1 rs s, w2 rs s, w3 rs s, w4 rs s, w5 rs s, w6 rs s, w7 rs s]"

text \<open>
  The rule in the words of the specification (it is not read off the code): the smallest index \<open>j\<close>, scanning the channels
  in order, such that the sum of the propensities up to \<open>j\<close>, divided by the total, is
  at least \<open>r_2\<close>. \<open>spec_scan W r_2 acc j ps\<close> scans the channels \<open>j, j + 1, ...\<close> with
  propensities \<open>ps\<close>, where \<open>acc\<close> is the sum of the propensities before \<open>j\<close>.
\<close>

fun spec_scan :: "real \<Rightarrow> real \<Rightarrow> real \<Rightarrow> nat \<Rightarrow> real list \<Rightarrow> nat option" where
  "spec_scan W r_2 acc j [] = None"
| "spec_scan W r_2 acc j (p # ps) =
     (if (acc + p) / W \<ge> r_2 then Some j else spec_scan W r_2 (acc + p) (Suc j) ps)"

definition spec_channel :: "rates \<Rightarrow> state \<Rightarrow> real \<Rightarrow> nat option" where
  "spec_channel rs s r_2 = spec_scan (W_tot rs s) r_2 0 1 (propensities rs s)"

subsection \<open>Concrete inputs\<close>

text \<open>The default values of the keyword arguments.\<close>

definition default_rates :: rates where
  "default_rates = \<lparr>rWiseToRisky = 1 / 10, rRiskyToWise = 3 / 100,
     rWiseToInfected = 1 / 1000, rRiskyToInfected = 1 / 100, rCure = 2 / 10,
     rFatalities = 8 / 100, rRecover = 1 / 10\<rparr>"

definition zero_rates :: rates where
  "zero_rates = \<lparr>rWiseToRisky = 0, rRiskyToWise = 0, rWiseToInfected = 0,
     rRiskyToInfected = 0, rCure = 0, rFatalities = 0, rRecover = 0\<rparr>"

definition recover_only :: rates where
  "recover_only = zero_rates\<lparr>rRecover := 1\<rparr>"

definition boundary_rates :: rates where
  "boundary_rates = zero_rates\<lparr>rCure := 1 / 2, rFatalities := 1 / 2, rRecover := 1\<rparr>"

definition sink_rates :: rates where
  "sink_rates = zero_rates\<lparr>rFatalities := 1, rRecover := 1\<rparr>"

definition half_draws :: "nat \<Rightarrow> real" where
  "half_draws i = 1 / 2"

definition zero_first_draws :: "nat \<Rightarrow> real" where
  "zero_first_draws i = (if i = 0 then 0 else 1 / 2)"

text \<open>\<open>r_1 = 1023 / 1024\<close> and \<open>r_2 = 1 / 2\<close> in every iteration.\<close>

definition short_step_draws :: "nat \<Rightarrow> real" where
  "short_step_draws i = (if even i then 1023 / 1024 else 1 / 2)"

text \<open>
  The state after one iteration from the initial state in which the reaction
  \<open>I \<rightarrow> S\<close> fires after the waiting time \<open>ln 2\<close>.
\<close>

definition recovered_state :: state where
  "recovered_state =
     (let s = init_state\<lparr>t_now := Fin (ln 2), n_I := 0, n_S := 1, it := 1\<rparr>
      in s\<lparr>SIR_data := (SIR_data s)[1 := row_of s]\<rparr>)"

text \<open>As before, with an infinite waiting time.\<close>

definition stalled_state :: state where
  "stalled_state =
     (let s = init_state\<lparr>t_now := PosInf, n_I := 0, n_S := 1, it := 1\<rparr>
      in s\<lparr>SIR_data := (SIR_data s)[1 := row_of s]\<rparr>)"

text \<open>\<open>r_2 = 999 / 1000\<close> in the first iteration, and \<open>1 / 2\<close> for every other draw.\<close>

definition late_draws :: "nat \<Rightarrow> real" where
  "late_draws i = (if i = 1 then 999 / 1000 else 1 / 2)"

text \<open>
  The state after one iteration with the default rates in which the reaction
  \<open>I \<rightarrow> S\<close> fires.
\<close>

definition immune_state :: state where
  "immune_state =
     (let s = init_state\<lparr>t_now := f_add (Fin 0) (waiting_time default_rates (1 / 2) init_state),
                n_I := 0, n_S := 1, it := 1\<rparr>
      in s\<lparr>SIR_data := (SIR_data s)[1 := row_of s]\<rparr>)"


text \<open>
  The states of the run with \<open>sink_rates\<close> and \<open>short_step_draws\<close>: after \<open>k\<close>
  iterations the counts are the initial ones and the time is at most \<open>k / 2046\<close>.
\<close>

definition frozen :: "nat \<Rightarrow> state \<Rightarrow> bool" where
  "frozen k s \<longleftrightarrow>
     it s = k \<and> n_W s = 149 \<and> n_R s = 50 \<and> n_I s = 1 \<and> length (SIR_data s) = MAXITER \<and>
     (\<exists>x. t_now s = Fin x \<and> x \<le> real k / 2046)"

section \<open>Properties of the loop body\<close>

declare main_loop.simps [simp del]

lemmas branch_defs = W_to_R_def R_to_W_def R_to_I_def W_to_I_def I_to_W_def I_to_D_def I_to_S_def
lemmas weight_defs = w1_def w2_def w3_def w4_def w5_def w6_def w7_def
lemmas guard_defs = guard1_def guard2_def guard3_def guard4_def guard5_def guard6_def guard7_def

lemma when_do_keeps: "(\<And>x. P (f x) = P x) \<Longrightarrow> P (when_do g f s) = P s"
  by (simp add: when_do_def)

lemma choose_reaction_it: "it (choose_reaction rs s0 r s) = it s"
  by (simp add: choose_reaction_def Let_def when_do_keeps [where P = it] branch_defs)

lemma choose_reaction_t_now: "t_now (choose_reaction rs s0 r s) = t_now s"
  by (simp add: choose_reaction_def Let_def when_do_keeps [where P = t_now] branch_defs)

lemma choose_reaction_SIR_data: "SIR_data (choose_reaction rs s0 r s) = SIR_data s"
  by (simp add: choose_reaction_def Let_def when_do_keeps [where P = SIR_data] branch_defs)

lemma branch_total:
  "sum_list (counts (W_to_R s)) = sum_list (counts s)"
  "sum_list (counts (R_to_W s)) = sum_list (counts s)"
  "sum_list (counts (R_to_I s)) = sum_list (counts s)"
  "sum_list (counts (W_to_I s)) = sum_list (counts s)"
  "sum_list (counts (I_to_W s)) = sum_list (counts s)"
  "sum_list (counts (I_to_D s)) = sum_list (counts s)"
  "sum_list (counts (I_to_S s)) = sum_list (counts s)"
  by (simp_all add: branch_defs counts_def)

lemma choose_reaction_total:
  "sum_list (counts (choose_reaction rs s0 r s)) = sum_list (counts s)"
  unfolding choose_reaction_def Let_def
  by (simp only: when_do_keeps [where P = "\<lambda>s. sum_list (counts s)"] branch_total)

lemma guard_iffs:
  assumes "0 < W_tot rs s"
  shows "guard1 rs s r \<longleftrightarrow> r * W_tot rs s < w1 rs s"
    and "guard2 rs s r \<longleftrightarrow> w1 rs s \<le> r * W_tot rs s \<and> r * W_tot rs s < w1 rs s + w2 rs s"
    and "guard3 rs s r \<longleftrightarrow> w1 rs s + w2 rs s \<le> r * W_tot rs s \<and>
           r * W_tot rs s < w1 rs s + w2 rs s + w3 rs s"
    and "guard4 rs s r \<longleftrightarrow> w1 rs s + w2 rs s + w3 rs s \<le> r * W_tot rs s \<and>
           r * W_tot rs s < w1 rs s + w2 rs s + w3 rs s + w4 rs s"
    and "guard5 rs s r \<longleftrightarrow> w1 rs s + w2 rs s + w3 rs s + w4 rs s \<le> r * W_tot rs s \<and>
           r * W_tot rs s < w1 rs s + w2 rs s + w3 rs s + w4 rs s + w5 rs s"
    and "guard6 rs s r \<longleftrightarrow> w1 rs s + w2 rs s + w3 rs s + w4 rs s + w5 rs s \<le> r * W_tot rs s \<and>
           r * W_tot rs s < w1 rs s + w2 rs s + w3 rs s + w4 rs s + w5 rs s + w6 rs s"
    and "guard7 rs s r \<longleftrightarrow>
           w1 rs s + w2 rs s + w3 rs s + w4 rs s + w5 rs s + w6 rs s < r * W_tot rs s"
  using assms by (simp_all add: guard_defs pos_less_divide_eq pos_divide_le_eq pos_divide_less_eq)

lemma when_do_exclusive:
  assumes "\<not> (g1 \<and> g2)" "\<not> (g1 \<and> g3)" "\<not> (g1 \<and> g4)" "\<not> (g1 \<and> g5)" "\<not> (g1 \<and> g6)" "\<not> (g1 \<and> g7)"
    "\<not> (g2 \<and> g3)" "\<not> (g2 \<and> g4)" "\<not> (g2 \<and> g5)" "\<not> (g2 \<and> g6)" "\<not> (g2 \<and> g7)"
    "\<not> (g3 \<and> g4)" "\<not> (g3 \<and> g5)" "\<not> (g3 \<and> g6)" "\<not> (g3 \<and> g7)"
    "\<not> (g4 \<and> g5)" "\<not> (g4 \<and> g6)" "\<not> (g4 \<and> g7)"
    "\<not> (g5 \<and> g6)" "\<not> (g5 \<and> g7)" "\<not> (g6 \<and> g7)"
  shows "when_do g7 f7 (when_do g6 f6 (when_do g5 f5 (when_do g4 f4
           (when_do g3 f3 (when_do g2 f2 (when_do g1 f1 s)))))) =
         (if g1 then f1 s else if g2 then f2 s else if g3 then f3 s else if g4 then f4 s
          else if g5 then f5 s else if g6 then f6 s else if g7 then f7 s else s)"
  using assms by (auto simp: when_do_def)

lemma weights_nonneg:
  assumes "rates_nonneg rs" "counts_nonneg s"
  shows "0 \<le> w1 rs s" "0 \<le> w2 rs s" "0 \<le> w3 rs s" "0 \<le> w4 rs s"
    "0 \<le> w5 rs s" "0 \<le> w6 rs s" "0 \<le> w7 rs s"
  using assms by (simp_all add: weight_defs rates_nonneg_def counts_nonneg_def)

lemma W_tot_nonneg:
  assumes "rates_nonneg rs" "counts_nonneg s"
  shows "0 \<le> W_tot rs s"
  using weights_nonneg [OF assms] by (simp add: W_tot_def)

lemma guards_exclusive:
  assumes W: "0 < W_tot rs s"
    and w: "0 \<le> w1 rs s" "0 \<le> w2 rs s" "0 \<le> w3 rs s" "0 \<le> w4 rs s"
      "0 \<le> w5 rs s" "0 \<le> w6 rs s" "0 \<le> w7 rs s"
  shows "\<not> (guard1 rs s r \<and> guard2 rs s r)" "\<not> (guard1 rs s r \<and> guard3 rs s r)"
    "\<not> (guard1 rs s r \<and> guard4 rs s r)" "\<not> (guard1 rs s r \<and> guard5 rs s r)"
    "\<not> (guard1 rs s r \<and> guard6 rs s r)" "\<not> (guard1 rs s r \<and> guard7 rs s r)"
    "\<not> (guard2 rs s r \<and> guard3 rs s r)" "\<not> (guard2 rs s r \<and> guard4 rs s r)"
    "\<not> (guard2 rs s r \<and> guard5 rs s r)" "\<not> (guard2 rs s r \<and> guard6 rs s r)"
    "\<not> (guard2 rs s r \<and> guard7 rs s r)" "\<not> (guard3 rs s r \<and> guard4 rs s r)"
    "\<not> (guard3 rs s r \<and> guard5 rs s r)" "\<not> (guard3 rs s r \<and> guard6 rs s r)"
    "\<not> (guard3 rs s r \<and> guard7 rs s r)" "\<not> (guard4 rs s r \<and> guard5 rs s r)"
    "\<not> (guard4 rs s r \<and> guard6 rs s r)" "\<not> (guard4 rs s r \<and> guard7 rs s r)"
    "\<not> (guard5 rs s r \<and> guard6 rs s r)" "\<not> (guard5 rs s r \<and> guard7 rs s r)"
    "\<not> (guard6 rs s r \<and> guard7 rs s r)"
  using w unfolding guard_iffs [OF W] by linarith+

lemma choose_reaction_cases:
  assumes W: "0 < W_tot rs s0"
    and w: "0 \<le> w1 rs s0" "0 \<le> w2 rs s0" "0 \<le> w3 rs s0" "0 \<le> w4 rs s0"
      "0 \<le> w5 rs s0" "0 \<le> w6 rs s0" "0 \<le> w7 rs s0"
  shows "choose_reaction rs s0 r s =
    (if guard1 rs s0 r then W_to_R s else if guard2 rs s0 r then R_to_W s
     else if guard3 rs s0 r then R_to_I s else if guard4 rs s0 r then W_to_I s
     else if guard5 rs s0 r then I_to_W s else if guard6 rs s0 r then I_to_D s
     else if guard7 rs s0 r then I_to_S s else s)"
  unfolding choose_reaction_def Let_def
  by (rule when_do_exclusive) (rule guards_exclusive [OF W w])+

lemma guard_weight_pos:
  assumes W: "0 < W_tot rs s"
    and w: "0 \<le> w1 rs s" "0 \<le> w2 rs s" "0 \<le> w3 rs s" "0 \<le> w4 rs s"
      "0 \<le> w5 rs s" "0 \<le> w6 rs s" "0 \<le> w7 rs s"
    and r: "0 \<le> r" "r < 1"
  shows "guard1 rs s r \<Longrightarrow> 0 < w1 rs s" "guard2 rs s r \<Longrightarrow> 0 < w2 rs s"
    "guard3 rs s r \<Longrightarrow> 0 < w3 rs s" "guard4 rs s r \<Longrightarrow> 0 < w4 rs s"
    "guard5 rs s r \<Longrightarrow> 0 < w5 rs s" "guard6 rs s r \<Longrightarrow> 0 < w6 rs s"
    "guard7 rs s r \<Longrightarrow> 0 < w7 rs s"
proof -
  have lo: "0 \<le> r * W_tot rs s"
    using W r by simp
  have hi: "r * W_tot rs s < w1 rs s + w2 rs s + w3 rs s + w4 rs s + w5 rs s + w6 rs s + w7 rs s"
    using W r by (simp add: W_tot_def [symmetric])
  show "guard1 rs s r \<Longrightarrow> 0 < w1 rs s" "guard2 rs s r \<Longrightarrow> 0 < w2 rs s"
    "guard3 rs s r \<Longrightarrow> 0 < w3 rs s" "guard4 rs s r \<Longrightarrow> 0 < w4 rs s"
    "guard5 rs s r \<Longrightarrow> 0 < w5 rs s" "guard6 rs s r \<Longrightarrow> 0 < w6 rs s"
    "guard7 rs s r \<Longrightarrow> 0 < w7 rs s"
    using lo hi unfolding guard_iffs [OF W] by linarith+
qed

lemma pos_weight: "0 < a * real_of_int n \<Longrightarrow> 0 \<le> n \<Longrightarrow> 1 \<le> n"
  by (cases "n = 0") auto

lemma pos_weight2: "0 < a * real_of_int i * real_of_int n \<Longrightarrow> 0 \<le> n \<Longrightarrow> 1 \<le> n"
  by (cases "n = 0") auto

lemma branch_upd:
  "W_to_R (s\<lparr>it := k, t_now := x\<rparr>) = (W_to_R s)\<lparr>it := k, t_now := x\<rparr>"
  "R_to_W (s\<lparr>it := k, t_now := x\<rparr>) = (R_to_W s)\<lparr>it := k, t_now := x\<rparr>"
  "R_to_I (s\<lparr>it := k, t_now := x\<rparr>) = (R_to_I s)\<lparr>it := k, t_now := x\<rparr>"
  "W_to_I (s\<lparr>it := k, t_now := x\<rparr>) = (W_to_I s)\<lparr>it := k, t_now := x\<rparr>"
  "I_to_W (s\<lparr>it := k, t_now := x\<rparr>) = (I_to_W s)\<lparr>it := k, t_now := x\<rparr>"
  "I_to_D (s\<lparr>it := k, t_now := x\<rparr>) = (I_to_D s)\<lparr>it := k, t_now := x\<rparr>"
  "I_to_S (s\<lparr>it := k, t_now := x\<rparr>) = (I_to_S s)\<lparr>it := k, t_now := x\<rparr>"
  by (simp_all add: branch_defs)

lemma when_do_upd:
  "(\<And>y. f (y\<lparr>it := k, t_now := x\<rparr>) = (f y)\<lparr>it := k, t_now := x\<rparr>) \<Longrightarrow>
   when_do g f (s\<lparr>it := k, t_now := x\<rparr>) = (when_do g f s)\<lparr>it := k, t_now := x\<rparr>"
  by (simp add: when_do_def)

lemma choose_reaction_upd:
  "choose_reaction rs s0 r (s\<lparr>it := k, t_now := x\<rparr>) =
   (choose_reaction rs s0 r s)\<lparr>it := k, t_now := x\<rparr>"
  unfolding choose_reaction_def Let_def
  by (simp only: when_do_upd branch_upd)

lemma body_Inr_iff:
  "body rs r_1 r_2 s = Inr s' \<longleftrightarrow>
     W_tot rs s \<noteq> 0 \<and> Suc (it s) < length (SIR_data s) \<and>
     s' = (let c = (fired rs r_2 s)\<lparr>it := Suc (it s),
                     t_now := f_add (t_now s) (waiting_time rs r_1 s)\<rparr>
           in c\<lparr>SIR_data := (SIR_data s)[Suc (it s) := row_of c]\<rparr>)"
proof -
  have "choose_reaction rs s r_2 (s\<lparr>it := Suc (it s), t_now := x\<rparr>) =
        (fired rs r_2 s)\<lparr>it := Suc (it s), t_now := x\<rparr>" for x
    by (simp only: choose_reaction_upd fired_def)
  moreover have "SIR_data (fired rs r_2 s) = SIR_data s"
    by (simp add: fired_def choose_reaction_SIR_data)
  ultimately show ?thesis
    by (auto simp: body_def Let_def)
qed

lemma body_Inr:
  assumes "body rs r_1 r_2 s = Inr s'"
  shows "W_tot rs s \<noteq> 0" and "Suc (it s) < length (SIR_data s)"
    and "it s' = Suc (it s)"
    and "t_now s' = f_add (t_now s) (waiting_time rs r_1 s)"
    and "n_W s' = n_W (fired rs r_2 s)" and "n_R s' = n_R (fired rs r_2 s)"
    and "n_I s' = n_I (fired rs r_2 s)" and "n_S s' = n_S (fired rs r_2 s)"
    and "n_D s' = n_D (fired rs r_2 s)"
    and "SIR_data s' = (SIR_data s)[Suc (it s) := row_of s']"
  using assms unfolding body_Inr_iff by (simp_all add: Let_def row_of_def)

lemma body_counts:
  assumes "body rs r_1 r_2 s = Inr s'"
  shows "counts s' = counts (fired rs r_2 s)"
  using body_Inr [OF assms] by (simp add: counts_def)

lemma body_Inl_iff:
  "body rs r_1 r_2 s = Inl e \<longleftrightarrow>
     (W_tot rs s = 0 \<and> e = ZeroDivisionError) \<or>
     (W_tot rs s \<noteq> 0 \<and> \<not> Suc (it s) < length (SIR_data s) \<and> e = IndexError)"
  by (auto simp: body_def Let_def choose_reaction_it choose_reaction_SIR_data)

lemma recorded_body:
  assumes "body rs r_1 r_2 s = Inr s'"
  shows "recorded s' = recorded s @ [row_of s']"
proof -
  note b = body_Inr [OF assms]
  have "take (Suc (Suc (it s))) ((SIR_data s)[Suc (it s) := row_of s']) =
        take (Suc (it s)) (SIR_data s) @ [row_of s']"
    using b(2) by (simp add: take_Suc_conv_app_nth [of "Suc (it s)"])
  then show ?thesis
    by (simp add: recorded_def b(3) b(10))
qed

lemma reachable_buffer:
  assumes "reachable rs u s"
  shows "length (SIR_data s) = MAXITER \<and> it s < MAXITER"
  using assms
proof induction
  case start
  show ?case by (simp add: init_state_def Let_def MAXITER_def)
next
  case (iterate s s')
  note b = body_Inr [OF iterate.hyps(4)]
  from b(2) b(3) b(10) iterate.IH show ?case by simp
qed

lemma reachable_last:
  assumes "reachable rs u s"
  shows "recorded s \<noteq> [] \<and> last (recorded s) = row_of s"
  using assms
proof induction
  case start
  show ?case
    by (simp add: recorded_def init_state_def Let_def MAXITER_def row_of_def
        take_Suc_conv_app_nth)
next
  case (iterate s s')
  show ?case by (simp add: recorded_body [OF iterate.hyps(4)])
qed

lemma recorded_init: "recorded init_state = [row_of init_state]"
  by (simp add: recorded_def init_state_def Let_def MAXITER_def row_of_def
        take_Suc_conv_app_nth)

lemma row_counts_row_of: "row_counts (row_of s) = counts s"
  by (simp add: row_counts_def row_of_def counts_def)

lemma row_nonneg_row_of: "row_nonneg (row_of s) = counts_nonneg s"
  by (simp add: row_nonneg_def row_of_def counts_nonneg_def)

lemma fired_total: "sum_list (counts (fired rs r s)) = sum_list (counts s)"
  by (simp add: fired_def choose_reaction_total)

lemma init_total: "sum_list (counts init_state) = N"
  by (simp add: init_state_def Let_def counts_def N_def)

lemma reachable_total:
  assumes "reachable rs u s"
  shows "sum_list (counts s) = N \<and> (\<forall>r \<in> set (recorded s). sum_list (row_counts r) = N)"
  using assms
proof induction
  case start
  show ?case by (simp add: recorded_init row_counts_row_of init_total)
next
  case (iterate s s')
  have "sum_list (counts s') = N"
    using iterate.IH by (simp add: body_counts [OF iterate.hyps(4)] fired_total)
  with iterate.IH show ?case
    by (simp add: recorded_body [OF iterate.hyps(4)] row_counts_row_of)
qed

lemma fired_cases:
  assumes "rates_nonneg rs" "counts_nonneg s" "W_tot rs s \<noteq> 0"
  shows "fired rs r s =
    (if guard1 rs s r then W_to_R s else if guard2 rs s r then R_to_W s
     else if guard3 rs s r then R_to_I s else if guard4 rs s r then W_to_I s
     else if guard5 rs s r then I_to_W s else if guard6 rs s r then I_to_D s
     else if guard7 rs s r then I_to_S s else s)"
proof -
  have "0 < W_tot rs s"
    using W_tot_nonneg [OF assms(1,2)] assms(3) by simp
  then show ?thesis
    unfolding fired_def by (rule choose_reaction_cases) (rule weights_nonneg [OF assms(1,2)])+
qed

lemma fired_nonneg:
  assumes rs: "rates_nonneg rs" and s: "counts_nonneg s" and W: "W_tot rs s \<noteq> 0"
    and r: "0 \<le> r" "r < 1"
  shows "counts_nonneg (fired rs r s)"
proof -
  have Wpos: "0 < W_tot rs s"
    using W_tot_nonneg [OF rs s] W by simp
  note pos = guard_weight_pos [OF Wpos weights_nonneg [OF rs s] r]
  have c: "0 \<le> n_W s" "0 \<le> n_R s" "0 \<le> n_I s" "0 \<le> n_S s" "0 \<le> n_D s"
    using s by (simp_all add: counts_nonneg_def)
  have "guard1 rs s r \<Longrightarrow> 1 \<le> n_W s"
    using pos(1) c(1) unfolding w1_def by (rule pos_weight)
  moreover have "guard2 rs s r \<Longrightarrow> 1 \<le> n_R s"
    using pos(2) c(2) unfolding w2_def by (rule pos_weight)
  moreover have "guard3 rs s r \<Longrightarrow> 1 \<le> n_R s"
    using pos(3) c(2) unfolding w3_def by (rule pos_weight2)
  moreover have "guard4 rs s r \<Longrightarrow> 1 \<le> n_W s"
    using pos(4) c(1) unfolding w4_def by (rule pos_weight2)
  moreover have "guard5 rs s r \<Longrightarrow> 1 \<le> n_I s"
    using pos(5) c(3) unfolding w5_def by (rule pos_weight)
  moreover have "guard6 rs s r \<Longrightarrow> 1 \<le> n_I s"
    using pos(6) c(3) unfolding w6_def by (rule pos_weight)
  moreover have "guard7 rs s r \<Longrightarrow> 1 \<le> n_I s"
    using pos(7) c(3) unfolding w7_def by (rule pos_weight)
  ultimately show ?thesis
    using c unfolding fired_cases [OF rs s W]
    by (auto simp: counts_nonneg_def branch_defs)
qed

lemma counts_nonneg_cong:
  "counts s' = counts s \<Longrightarrow> counts_nonneg s' = counts_nonneg s"
  by (simp add: counts_def counts_nonneg_def)

lemma init_nonneg: "counts_nonneg init_state"
  by (simp add: init_state_def Let_def counts_nonneg_def N_def)

lemma reachable_nonneg:
  assumes rs: "rates_nonneg rs" and u: "unit_draws u" and "reachable rs u s"
  shows "counts_nonneg s \<and> (\<forall>r \<in> set (recorded s). row_nonneg r)"
  using assms(3)
proof induction
  case start
  show ?case by (simp add: recorded_init row_nonneg_row_of init_nonneg)
next
  case (iterate s s')
  note b = iterate.hyps(4)
  have r: "0 \<le> u (2 * it s + 1)" "u (2 * it s + 1) < 1"
    using u by (simp_all add: unit_draws_def)
  have "counts_nonneg (fired rs (u (2 * it s + 1)) s)"
    using rs _ body_Inr(1) [OF b] r by (rule fired_nonneg) (simp add: iterate.IH)
  then have "counts_nonneg s'"
    by (simp add: counts_nonneg_cong [OF body_counts [OF b]])
  with iterate.IH show ?case
    by (simp add: recorded_body [OF b] row_nonneg_row_of)
qed


section \<open>Sinks, guards and the loop\<close>

lemma branch_n_S:
  "n_S (W_to_R s) = n_S s" "n_S (R_to_W s) = n_S s" "n_S (R_to_I s) = n_S s"
  "n_S (W_to_I s) = n_S s" "n_S (I_to_W s) = n_S s" "n_S (I_to_D s) = n_S s"
  "n_S (I_to_S s) = n_S s + 1"
  by (simp_all add: branch_defs)

lemma branch_n_D:
  "n_D (W_to_R s) = n_D s" "n_D (R_to_W s) = n_D s" "n_D (R_to_I s) = n_D s"
  "n_D (W_to_I s) = n_D s" "n_D (I_to_W s) = n_D s" "n_D (I_to_D s) = n_D s + 1"
  "n_D (I_to_S s) = n_D s"
  by (simp_all add: branch_defs)

lemma fired_n_S: "n_S (fired rs r s) = (if guard7 rs s r then n_S s + 1 else n_S s)"
proof -
  have last: "n_S (when_do g I_to_S x) = (if g then n_S x + 1 else n_S x)" for g x
    by (simp add: when_do_def branch_n_S)
  show ?thesis
    unfolding fired_def choose_reaction_def Let_def last
    by (simp only: when_do_keeps [where P = n_S] branch_n_S(1-6))
qed

lemma fired_n_D: "n_D (fired rs r s) = (if guard6 rs s r then n_D s + 1 else n_D s)"
proof -
  have 7: "n_D (when_do g I_to_S x) = n_D x" for g x
    by (simp add: when_do_def branch_n_D)
  have 6: "n_D (when_do g I_to_D x) = (if g then n_D x + 1 else n_D x)" for g x
    by (simp add: when_do_def branch_n_D)
  show ?thesis
    unfolding fired_def choose_reaction_def Let_def 7 6
    by (simp only: when_do_keeps [where P = n_D] branch_n_D(1-5))
qed

lemma body_sinks:
  assumes "body rs r_1 r_2 s = Inr s'"
  shows "(n_S s' = n_S s \<or> n_S s' = n_S s + 1) \<and> (n_D s' = n_D s \<or> n_D s' = n_D s + 1)"
  using body_Inr(8,9) [OF assms] by (simp add: fired_n_S fired_n_D)

lemma sink_le_refl: "sink_le x x"
  by (simp add: sink_le_def)

lemma sink_le_trans: "sink_le x y \<Longrightarrow> sink_le y z \<Longrightarrow> sink_le x z"
  by (auto simp: sink_le_def)

lemma reachable_sinks:
  assumes "reachable rs u s"
  shows "sorted_wrt sink_le (recorded s) \<and> (\<forall>x \<in> set (recorded s). sink_le x (row_of s))"
  using assms
proof induction
  case start
  show ?case by (simp add: recorded_init sink_le_refl)
next
  case (iterate s s')
  note b = iterate.hyps(4)
  have "sink_le (row_of s) (row_of s')"
    using body_sinks [OF b] by (auto simp: sink_le_def row_of_def)
  then have "\<forall>x \<in> set (recorded s). sink_le x (row_of s')"
    using iterate.IH sink_le_trans by blast
  with iterate.IH show ?case
    by (simp add: recorded_body [OF b] sorted_wrt_append sink_le_refl)
qed

lemma SIR_recorded:
  assumes "reachable rs u s"
  shows "recorded s = SIR s @ [row_of s]"
proof -
  from reachable_buffer [OF assms] have "it s < length (SIR_data s)"
    by simp
  then have "recorded s = SIR s @ [SIR_data s ! it s]"
    by (simp add: recorded_def SIR_def take_Suc_conv_app_nth)
  moreover from this reachable_last [OF assms] have "SIR_data s ! it s = row_of s"
    by simp
  ultimately show ?thesis by simp
qed






lemma waiting_time_pos:
  assumes "0 < W_tot rs s" "0 < r" "r < 1"
  shows "\<exists>x>0. waiting_time rs r s = Fin x"
  using assms by (simp add: waiting_time_def np_log_def ln_less_zero divide_neg_pos)

lemma main_loop_stop: "\<not> loop_cond s \<or> n_I s = 0 \<Longrightarrow> main_loop rs u s = Inr s"
  by (subst main_loop.simps) auto

lemma main_loop_step:
  "loop_cond s \<Longrightarrow> n_I s \<noteq> 0 \<Longrightarrow> body rs (u (2 * it s)) (u (2 * it s + 1)) s = Inr s' \<Longrightarrow>
   main_loop rs u s = main_loop rs u s'"
  by (subst main_loop.simps) simp

lemma main_loop_raise:
  "loop_cond s \<Longrightarrow> n_I s \<noteq> 0 \<Longrightarrow> body rs (u (2 * it s)) (u (2 * it s + 1)) s = Inl e \<Longrightarrow>
   main_loop rs u s = Inl e"
  by (subst main_loop.simps) simp


section \<open>Concrete runs\<close>

lemmas rates_defs = default_rates_def zero_rates_def recover_only_def boundary_rates_def
  sink_rates_def

lemma init_fields:
  "t_now init_state = Fin 0" "n_W init_state = 149" "n_I init_state = 1"
  "n_R init_state = 50" "n_S init_state = 0" "n_D init_state = 0" "it init_state = 0"
  "length (SIR_data init_state) = MAXITER"
  by (simp_all add: init_state_def Let_def N_def)

lemma W_tot_recover: "W_tot recover_only init_state = 1"
  by (simp add: W_tot_def weight_defs rates_defs init_fields)

lemma fired_recover: "fired recover_only (1 / 2) init_state = I_to_S init_state"
  by (simp add: fired_def choose_reaction_def when_do_def guard_defs W_tot_recover
      weight_defs rates_defs init_fields)

lemma body_recover: "body recover_only (1 / 2) (1 / 2) init_state = Inr recovered_state"
  unfolding body_Inr_iff
  by (simp add: fired_recover W_tot_recover init_fields MAXITER_def I_to_S_def Let_def
      recovered_state_def waiting_time_def np_log_def row_of_def ln_div)

lemma loop_cond_init: "loop_cond init_state"
  by (simp add: loop_cond_def init_fields T_def MAXITER_def)

lemma run_recover: "gillespie recover_only half_draws = Inr recovered_state"
proof -
  have "main_loop recover_only half_draws init_state =
        main_loop recover_only half_draws recovered_state"
    by (rule main_loop_step)
      (simp_all add: loop_cond_init init_fields half_draws_def body_recover)
  also have "\<dots> = Inr recovered_state"
    by (rule main_loop_stop) (simp add: recovered_state_def Let_def)
  finally show ?thesis
    by (simp add: gillespie_def)
qed

lemma run_zero: "gillespie zero_rates half_draws = Inl ZeroDivisionError"
  unfolding gillespie_def
  by (rule main_loop_raise)
    (simp_all add: loop_cond_init init_fields body_def W_tot_def weight_defs rates_defs)

lemma SIR_recovered: "SIR recovered_state = [row_of init_state]"
  by (simp add: SIR_def recovered_state_def Let_def)
    (simp add: init_state_def Let_def MAXITER_def take_Suc_conv_app_nth row_of_def)

lemma boundary_fired: "fired boundary_rates (1 / 4) init_state = I_to_D init_state"
  by (simp add: fired_def choose_reaction_def when_do_def guard_defs W_tot_def
      weight_defs rates_defs init_fields)

lemma boundary_spec: "spec_channel boundary_rates init_state (1 / 4) = Some 5"
  by (simp add: spec_channel_def propensities_def W_tot_def
      weight_defs rates_defs init_fields)

lemma frozen_init: "frozen 0 init_state"
  by (simp add: frozen_def init_fields)

lemma frozen_W_tot: "frozen k s \<Longrightarrow> W_tot sink_rates s = 2"
  by (simp add: frozen_def W_tot_def weight_defs rates_defs)

lemma frozen_fired:
  assumes "frozen k s"
  shows "fired sink_rates (1 / 2) s = s"
  using assms
  by (simp add: fired_def choose_reaction_def when_do_def guard_defs frozen_W_tot [OF assms])
    (simp add: frozen_def weight_defs rates_defs)

lemma short_wait:
  assumes "frozen k s"
  shows "\<exists>d. waiting_time sink_rates (1023 / 1024) s = Fin d \<and> d \<le> 1 / 2046"
proof -
  have "ln (1 + 1 / 1023) \<le> (1 / 1023 :: real)"
    by (rule ln_add_one_self_le_self) simp
  moreover have "ln (1 + 1 / 1023 :: real) = - ln (1023 / 1024)"
    by (simp add: ln_div)
  ultimately have "- ln (1023 / 1024 :: real) / 2 \<le> 1 / 2046"
    by simp
  then show ?thesis
    by (simp add: waiting_time_def np_log_def frozen_W_tot [OF assms])
qed

lemma frozen_step:
  assumes f: "frozen k s" and k: "Suc k < MAXITER"
  shows "\<exists>s'. body sink_rates (short_step_draws (2 * it s)) (short_step_draws (2 * it s + 1)) s
           = Inr s' \<and> frozen (Suc k) s'"
proof -
  obtain d where d: "waiting_time sink_rates (1023 / 1024) s = Fin d" "d \<le> 1 / 2046"
    using short_wait [OF f] by blast
  obtain x where x: "t_now s = Fin x" "x \<le> real k / 2046"
    using f by (auto simp: frozen_def)
  have "x + d \<le> real (Suc k) / 2046"
    using d(2) x(2) by (simp add: field_simps)
  then show ?thesis
    using f k unfolding body_Inr_iff
    by (simp add: short_step_draws_def frozen_fired [OF f] frozen_W_tot [OF f] d x Let_def)
      (simp add: frozen_def)
qed

lemma frozen_loop_cond:
  assumes "frozen k s" "k < MAXITER"
  shows "loop_cond s \<and> n_I s \<noteq> 0"
proof -
  obtain x where x: "t_now s = Fin x" "x \<le> real k / 2046"
    using assms(1) by (auto simp: frozen_def)
  have "real k / 2046 < 100"
    using assms(2) by (simp add: MAXITER_def)
  with x assms show ?thesis
    by (simp add: loop_cond_def T_def frozen_def)
qed

lemma frozen_raises:
  assumes "frozen k s" "k < MAXITER"
  shows "main_loop sink_rates short_step_draws s = Inl IndexError"
  using assms
proof (induction "MAXITER - k" arbitrary: k s)
  case 0
  then show ?case by simp
next
  case (Suc n)
  note lc = frozen_loop_cond [OF Suc.prems]
  show ?case
  proof (cases "Suc k < MAXITER")
    case True
    obtain s' where s': "body sink_rates (short_step_draws (2 * it s))
        (short_step_draws (2 * it s + 1)) s = Inr s'" "frozen (Suc k) s'"
      using frozen_step [OF Suc.prems(1) True] by blast
    have "main_loop sink_rates short_step_draws s = main_loop sink_rates short_step_draws s'"
      using lc s'(1) by (intro main_loop_step) simp_all
    also have "\<dots> = Inl IndexError"
      using Suc.hyps(2) s'(2) True by (intro Suc.hyps(1)) simp_all
    finally show ?thesis .
  next
    case False
    with Suc.prems have "\<not> Suc (it s) < length (SIR_data s)"
      by (simp add: frozen_def)
    then have "body sink_rates (short_step_draws (2 * it s))
        (short_step_draws (2 * it s + 1)) s = Inl IndexError"
      unfolding body_Inl_iff by (simp add: frozen_W_tot [OF Suc.prems(1)])
    with lc show ?thesis
      by (intro main_loop_raise) simp_all
  qed
qed

lemma run_cap: "gillespie sink_rates short_step_draws = Inl IndexError"
  unfolding gillespie_def by (rule frozen_raises [OF frozen_init]) (simp add: MAXITER_def)

lemma reachable_recovered: "reachable recover_only half_draws recovered_state"
proof -
  have b: "body recover_only (half_draws (2 * it init_state)) (half_draws (2 * it init_state + 1))
          init_state = Inr recovered_state"
    by (simp add: half_draws_def body_recover)
  show ?thesis
    by (rule reachable.iterate [OF reachable.start _ _ b])
      (simp_all add: loop_cond_init init_fields)
qed

lemma rates_nonneg_examples:
  "rates_nonneg zero_rates" "rates_nonneg recover_only" "rates_nonneg boundary_rates"
  "rates_nonneg sink_rates" "rates_nonneg default_rates"
  by (simp_all add: rates_nonneg_def rates_defs)

lemma unit_draws_examples:
  "unit_draws half_draws" "unit_draws zero_first_draws" "unit_draws short_step_draws"
  by (simp_all add: unit_draws_def half_draws_def zero_first_draws_def short_step_draws_def)

lemma recorded_recovered:
  "recorded recovered_state = [row_of init_state, row_of recovered_state]"
  using recorded_body [OF body_recover] by (simp add: recorded_init)

lemma recorded_hd:
  assumes "reachable rs u s"
  shows "hd (recorded s) = row_of init_state"
  using assms
proof induction
  case start
  show ?case by (simp add: recorded_init)
next
  case (iterate s s')
  from reachable_last [OF iterate.hyps(1)] iterate.IH show ?case
    by (simp add: recorded_body [OF iterate.hyps(4)])
qed

lemma sorted_wrt_butlast_snoc: "sorted_wrt P (xs @ [x]) \<Longrightarrow> sorted_wrt P xs"
  by (simp add: sorted_wrt_append)

lemma recovered_fields:
  "t_now recovered_state = Fin (ln 2)" "n_W recovered_state = 149" "n_I recovered_state = 0"
  "n_R recovered_state = 50" "n_S recovered_state = 1" "n_D recovered_state = 0"
  "it recovered_state = 1"
  by (simp_all add: recovered_state_def Let_def init_fields)


lemma W_tot_zero_init: "W_tot zero_rates init_state = 0"
  by (simp add: W_tot_def weight_defs rates_defs)


lemma stalled_fields:
  "t_now stalled_state = PosInf" "n_W stalled_state = 149" "n_I stalled_state = 0"
  "n_R stalled_state = 50" "n_S stalled_state = 1" "n_D stalled_state = 0"
  "it stalled_state = 1"
  by (simp_all add: stalled_state_def Let_def init_fields)

lemma body_stalled: "body recover_only 0 (1 / 2) init_state = Inr stalled_state"
  unfolding body_Inr_iff
  by (simp add: fired_recover W_tot_recover init_fields MAXITER_def I_to_S_def Let_def
      stalled_state_def waiting_time_def np_log_def row_of_def)

lemma run_stalled: "gillespie recover_only zero_first_draws = Inr stalled_state"
proof -
  have "main_loop recover_only zero_first_draws init_state =
        main_loop recover_only zero_first_draws stalled_state"
    by (rule main_loop_step)
      (simp_all add: loop_cond_init init_fields zero_first_draws_def body_stalled)
  also have "\<dots> = Inr stalled_state"
    by (rule main_loop_stop) (simp add: stalled_fields)
  finally show ?thesis
    by (simp add: gillespie_def)
qed

lemma W_tot_default: "W_tot default_rates init_state = 17429 / 1000"
  by (simp add: W_tot_def weight_defs rates_defs init_fields)

lemma fired_default: "fired default_rates (999 / 1000) init_state = I_to_S init_state"
  by (simp add: fired_def choose_reaction_def when_do_def guard_defs W_tot_default)
    (simp add: weight_defs rates_defs init_fields)

lemma body_default: "body default_rates (1 / 2) (999 / 1000) init_state = Inr immune_state"
  unfolding body_Inr_iff
  by (simp add: fired_default W_tot_default init_fields MAXITER_def I_to_S_def Let_def
      immune_state_def row_of_def)

lemma immune_fields:
  "n_W immune_state = 149" "n_I immune_state = 0" "n_R immune_state = 50"
  "n_S immune_state = 1" "n_D immune_state = 0" "it immune_state = 1"
  by (simp_all add: immune_state_def Let_def init_fields)

lemma reachable_immune: "reachable default_rates late_draws immune_state"
proof -
  have b: "body default_rates (late_draws (2 * it init_state)) (late_draws (2 * it init_state + 1))
          init_state = Inr immune_state"
    by (simp add: late_draws_def init_fields body_default)
  show ?thesis
    by (rule reachable.iterate [OF reachable.start _ _ b])
      (simp_all add: loop_cond_init init_fields)
qed

lemma recorded_immune: "recorded immune_state = [row_of init_state, row_of immune_state]"
  using recorded_body [OF body_default] by (simp add: recorded_init)

lemma W_tot_immune: "W_tot default_rates immune_state = 164 / 10"
  by (simp add: W_tot_def weight_defs rates_defs immune_fields)

lemma unit_late_draws: "unit_draws late_draws"
  by (simp add: unit_draws_def late_draws_def)






section \<open>The claims\<close>




text \<open>
  Claim C2 (selection rule). The rule of the algorithm description selects the smallest
  channel whose cumulative share is at least \<open>r_2\<close>, so a draw on a cumulative boundary
  belongs to the lower channel. In the code the guards are closed below and open above:
  with \<open>rCure = 1/2\<close>, \<open>rFatalities = 1/2\<close>, \<open>rRecover = 1\<close> and the other rates zero,
  the draw \<open>r_2 = 1/4\<close> is the cumulative share of channel 5 in the initial state; the
  rule selects channel 5 (\<open>I \<rightarrow> W\<close>), and the code fires branch 6 (\<open>I \<rightarrow> D\<close>).
\<close>

theorem boundary_draw_fires_next_channel:
  "spec_channel boundary_rates init_state (1 / 4) = Some 5 \<and>
   (w1 boundary_rates init_state + w2 boundary_rates init_state + w3 boundary_rates init_state +
    w4 boundary_rates init_state + w5 boundary_rates init_state) / W_tot boundary_rates init_state
     = 1 / 4 \<and>
   guards boundary_rates init_state (1 / 4) = [False, False, False, False, False, True, False] \<and>
   fired boundary_rates (1 / 4) init_state = I_to_D init_state \<and>
   counts (I_to_D init_state) = [149, 50, 0, 0, 1] \<and>
   counts (I_to_W init_state) = [150, 50, 0, 0, 0]"
  by (simp add: boundary_spec boundary_fired)
    (simp add: guards_def guard_defs W_tot_def weight_defs rates_defs init_fields counts_def
      branch_defs)

text \<open>
  Claim C3 (length of the plotted trajectory). The run with \<open>rRecover = 1\<close>, the other
  rates zero, and all draws \<open>1/2\<close> fires one reaction (\<open>I \<rightarrow> S\<close>) and records two
  rows, the initial sample and the sample after the firing. The slice
  \<^verbatim>\<open>SIR_data[:it,:]\<close> that is plotted has one row: the sample of the last firing is
  not in it.
\<close>

theorem plotted_slice_drops_last_row:
  "gillespie recover_only half_draws = Inr recovered_state \<and> it recovered_state = 1 \<and>
   recorded recovered_state = [row_of init_state, row_of recovered_state] \<and>
   row_of recovered_state = \<lparr>time = Fin (ln 2), nW = 149, nI = 0, nR = 50, nS = 1, nD = 0\<rparr> \<and>
   SIR recovered_state = [row_of init_state] \<and> length (SIR recovered_state) = 1"
  by (simp add: run_recover recovered_fields recorded_recovered SIR_recovered row_of_def)

text \<open>
  Claim C4 (population conservation). In every state that a run reaches, and in every
  row recorded so far, \<open>W + R + I + S + D\<close> is the total population \<open>N = 200\<close>. Each
  of the seven reaction branches changes exactly two compartments, one by \<open>-1\<close> and
  one by \<open>+1\<close>.
\<close>

theorem population_conserved:
  assumes "reachable rs u s"
  shows "sum_list (counts s) = N \<and> N = 200 \<and>
    (\<forall>r \<in> set (recorded s). sum_list (row_counts r) = N) \<and>
    counts (W_to_R s) = [n_W s - 1, n_R s + 1, n_I s, n_S s, n_D s] \<and>
    counts (R_to_W s) = [n_W s + 1, n_R s - 1, n_I s, n_S s, n_D s] \<and>
    counts (R_to_I s) = [n_W s, n_R s - 1, n_I s + 1, n_S s, n_D s] \<and>
    counts (W_to_I s) = [n_W s - 1, n_R s, n_I s + 1, n_S s, n_D s] \<and>
    counts (I_to_W s) = [n_W s + 1, n_R s, n_I s - 1, n_S s, n_D s] \<and>
    counts (I_to_D s) = [n_W s, n_R s, n_I s - 1, n_S s, n_D s + 1] \<and>
    counts (I_to_S s) = [n_W s, n_R s, n_I s - 1, n_S s + 1, n_D s]"
  using reachable_total [OF assms] by (simp add: counts_def branch_defs N_def)

theorem population_conserved_witness:
  "reachable recover_only half_draws recovered_state \<and>
   sum_list (counts recovered_state) = 200 \<and>
   sum_list (row_counts (row_of init_state)) = 200 \<and>
   sum_list (row_counts (row_of recovered_state)) = 200"
  using reachable_recovered population_conserved [OF reachable_recovered]
  by (simp add: recorded_recovered)

text \<open>
  Claim C5 (non-negativity). With non-negative rate constants and draws in \<open>[0, 1)\<close>,
  every count in every state that a run reaches, and in every row recorded so far, is at
  least zero. In an iteration that does not raise, no draw \<open>r_2\<close> in \<open>[0, 1)\<close> passes
  the guard of a branch whose source species is empty, and the counts after the reaction
  are again non-negative.
\<close>

theorem counts_never_negative:
  assumes "rates_nonneg rs" and "unit_draws u" and "reachable rs u s"
  shows "counts_nonneg s \<and> (\<forall>r \<in> set (recorded s). row_nonneg r) \<and>
    (\<forall>r_2. 0 \<le> r_2 \<and> r_2 < 1 \<and> W_tot rs s \<noteq> 0 \<longrightarrow>
       (n_W s = 0 \<longrightarrow> \<not> guard1 rs s r_2 \<and> \<not> guard4 rs s r_2) \<and>
       (n_R s = 0 \<longrightarrow> \<not> guard2 rs s r_2 \<and> \<not> guard3 rs s r_2) \<and>
       (n_I s = 0 \<longrightarrow> \<not> guard5 rs s r_2 \<and> \<not> guard6 rs s r_2 \<and> \<not> guard7 rs s r_2) \<and>
       counts_nonneg (fired rs r_2 s))"
proof -
  note inv = reachable_nonneg [OF assms]
  then have s: "counts_nonneg s" by simp
  have "(n_W s = 0 \<longrightarrow> \<not> guard1 rs s r \<and> \<not> guard4 rs s r) \<and>
       (n_R s = 0 \<longrightarrow> \<not> guard2 rs s r \<and> \<not> guard3 rs s r) \<and>
       (n_I s = 0 \<longrightarrow> \<not> guard5 rs s r \<and> \<not> guard6 rs s r \<and> \<not> guard7 rs s r) \<and>
       counts_nonneg (fired rs r s)"
    if r: "0 \<le> r" "r < 1" and W: "W_tot rs s \<noteq> 0" for r
  proof -
    have Wpos: "0 < W_tot rs s"
      using W_tot_nonneg [OF assms(1) s] W by simp
    note pos = guard_weight_pos [OF Wpos weights_nonneg [OF assms(1) s] r]
    show ?thesis
      using pos fired_nonneg [OF assms(1) s W r] by (auto simp: weight_defs)
  qed
  with inv show ?thesis by blast
qed

theorem counts_never_negative_witness:
  "rates_nonneg default_rates \<and> unit_draws late_draws \<and>
   reachable default_rates late_draws immune_state \<and>
   counts immune_state = [149, 50, 0, 1, 0] \<and> counts_nonneg immune_state \<and>
   row_nonneg (row_of init_state) \<and> row_nonneg (row_of immune_state) \<and>
   W_tot default_rates immune_state = 164 / 10 \<and>
   \<not> guard5 default_rates immune_state (999 / 1000) \<and>
   \<not> guard6 default_rates immune_state (999 / 1000) \<and>
   \<not> guard7 default_rates immune_state (999 / 1000) \<and>
   counts_nonneg (fired default_rates (999 / 1000) immune_state)"
proof -
  note t = counts_never_negative [OF rates_nonneg_examples(5) unit_late_draws reachable_immune]
  have "(0::real) \<le> 999 / 1000 \<and> (999 / 1000 :: real) < 1 \<and>
      W_tot default_rates immune_state \<noteq> 0 \<and> n_I immune_state = 0"
    by (simp add: W_tot_immune immune_fields)
  with t have "\<not> guard5 default_rates immune_state (999 / 1000) \<and>
      \<not> guard6 default_rates immune_state (999 / 1000) \<and>
      \<not> guard7 default_rates immune_state (999 / 1000) \<and>
      counts_nonneg (fired default_rates (999 / 1000) immune_state)"
    by blast
  moreover from t have "counts_nonneg immune_state \<and>
      row_nonneg (row_of init_state) \<and> row_nonneg (row_of immune_state)"
    by (simp add: recorded_immune)
  ultimately show ?thesis
    using rates_nonneg_examples(5) unit_late_draws reachable_immune
    by (simp add: W_tot_immune counts_def immune_fields)
qed

text \<open>
  Claim C6 (division by the total propensity), as the code has it. The only case that
  the loop handles before the waiting time is \<open>n_I = 0\<close>, which ends the loop. The
  division by \<open>W\<close> has no guard: an iteration that starts with \<open>n_I \<noteq> 0\<close> and
  \<open>W = 0\<close> raises \<open>ZeroDivisionError\<close>, and an iteration that completes had
  \<open>W \<noteq> 0\<close> and has advanced the time by \<open>-ln(r_1) / W\<close>.
\<close>

theorem division_unguarded:
  "(n_I s = 0 \<longrightarrow> main_loop rs u s = Inr s) \<and>
   (loop_cond s \<and> n_I s \<noteq> 0 \<and> W_tot rs s = 0 \<longrightarrow> main_loop rs u s = Inl ZeroDivisionError) \<and>
   (body rs r_1 r_2 s = Inr s' \<longrightarrow>
      W_tot rs s \<noteq> 0 \<and>
      t_now s' = f_add (t_now s) (f_div (f_neg (np_log r_1)) (W_tot rs s)))"
proof -
  have "main_loop rs u s = Inl ZeroDivisionError"
    if "loop_cond s" "n_I s \<noteq> 0" "W_tot rs s = 0"
    using that by (intro main_loop_raise) (simp_all add: body_Inl_iff)
  moreover have "W_tot rs s \<noteq> 0 \<and>
      t_now s' = f_add (t_now s) (f_div (f_neg (np_log r_1)) (W_tot rs s))"
    if "body rs r_1 r_2 s = Inr s'"
    using body_Inr(1,4) [OF that] by (simp add: waiting_time_def)
  ultimately show ?thesis
    using main_loop_stop [of s rs u] by blast
qed

theorem division_unguarded_witness:
  "loop_cond init_state \<and> n_I init_state = 1 \<and> W_tot zero_rates init_state = 0 \<and>
   main_loop zero_rates half_draws init_state = Inl ZeroDivisionError \<and>
   body recover_only (1 / 2) (1 / 2) init_state = Inr recovered_state \<and>
   W_tot recover_only init_state = 1 \<and> t_now recovered_state = Fin (ln 2) \<and>
   n_I recovered_state = 0 \<and>
   main_loop recover_only half_draws recovered_state = Inr recovered_state"
  using division_unguarded [of init_state zero_rates half_draws]
    division_unguarded [of recovered_state recover_only half_draws]
    division_unguarded [of init_state recover_only half_draws "1 / 2" "1 / 2" recovered_state]
  by (simp add: loop_cond_init init_fields recovered_fields W_tot_zero_init W_tot_recover
      body_recover)

text \<open>
  Claim C6 as stated fails: with all rates zero the first iteration has \<open>I > 0\<close> and
  \<open>W \<le> 0\<close>, and the loop raises \<open>ZeroDivisionError\<close> instead of stopping.
\<close>

theorem zero_propensity_not_extinction:
  "loop_cond init_state \<and> 0 < n_I init_state \<and> W_tot zero_rates init_state \<le> 0 \<and>
   body zero_rates (half_draws 0) (half_draws 1) init_state = Inl ZeroDivisionError \<and>
   main_loop zero_rates half_draws init_state = Inl ZeroDivisionError"
proof -
  have "main_loop zero_rates half_draws init_state = Inl ZeroDivisionError"
    using run_zero by (simp add: gillespie_def)
  then show ?thesis
    by (simp add: loop_cond_init init_fields W_tot_zero_init body_Inl_iff)
qed

text \<open>
  Claim C7 (the draws), as the code has it. A draw is used as the generator returns it,
  without resampling. For \<open>W > 0\<close>, a draw \<open>r_1\<close> in \<open>(0, 1)\<close> gives a finite positive
  waiting time, and the draw \<open>r_1 = 0\<close> gives an infinite one: the iteration completes
  with \<open>t = inf\<close>, and the loop then stops at the test \<open>t < T\<close>.
\<close>

theorem draws_used_as_drawn:
  assumes W: "0 < W_tot rs s"
  shows "waiting_time rs 0 s = PosInf \<and>
    (0 < r_1 \<and> r_1 < 1 \<longrightarrow> (\<exists>x>0. waiting_time rs r_1 s = Fin x)) \<and>
    (loop_cond s \<and> n_I s \<noteq> 0 \<and> Suc (it s) < length (SIR_data s) \<and> t_now s = Fin x \<and>
     u (2 * it s) = 0 \<longrightarrow>
       (\<exists>s'. body rs 0 (u (2 * it s + 1)) s = Inr s' \<and> t_now s' = PosInf \<and>
          main_loop rs u s = Inr s'))"
proof -
  have inf: "waiting_time rs 0 s = PosInf"
    using W by (simp add: waiting_time_def np_log_def)
  have "\<exists>s'. body rs 0 (u (2 * it s + 1)) s = Inr s' \<and> t_now s' = PosInf \<and>
          main_loop rs u s = Inr s'"
    if lc: "loop_cond s" "n_I s \<noteq> 0" and k: "Suc (it s) < length (SIR_data s)"
      and t: "t_now s = Fin x" and z: "u (2 * it s) = 0"
  proof -
    obtain s' where b: "body rs 0 (u (2 * it s + 1)) s = Inr s'"
      using W k unfolding body_Inr_iff by simp
    have t': "t_now s' = PosInf"
      using body_Inr(4) [OF b] by (simp add: inf t)
    have "main_loop rs u s = main_loop rs u s'"
      using lc b by (intro main_loop_step) (simp_all add: z)
    also have "\<dots> = Inr s'"
      by (rule main_loop_stop) (simp add: loop_cond_def t')
    finally show ?thesis
      using b t' by simp
  qed
  with inf waiting_time_pos [OF W, of r_1] show ?thesis
    by blast
qed

theorem draws_used_as_drawn_witness:
  "W_tot recover_only init_state = 1 \<and> loop_cond init_state \<and> n_I init_state = 1 \<and>
   t_now init_state = Fin 0 \<and> zero_first_draws (2 * it init_state) = 0 \<and>
   waiting_time recover_only 0 init_state = PosInf \<and>
   waiting_time recover_only (1 / 2) init_state = Fin (ln 2) \<and> 0 < ln (2 :: real) \<and>
   body recover_only 0 (zero_first_draws (2 * it init_state + 1)) init_state = Inr stalled_state \<and>
   main_loop recover_only zero_first_draws init_state = Inr stalled_state"
proof -
  have W: "0 < W_tot recover_only init_state"
    by (simp add: W_tot_recover)
  note t = draws_used_as_drawn [OF W, of "1 / 2" 0 zero_first_draws]
  have hyp: "loop_cond init_state \<and> n_I init_state \<noteq> 0 \<and>
      Suc (it init_state) < length (SIR_data init_state) \<and> t_now init_state = Fin 0 \<and>
      zero_first_draws (2 * it init_state) = 0"
    by (simp add: loop_cond_init init_fields MAXITER_def zero_first_draws_def)
  with t obtain s' where s': "body recover_only 0 (zero_first_draws (2 * it init_state + 1))
      init_state = Inr s'" "main_loop recover_only zero_first_draws init_state = Inr s'"
    by blast
  have "body recover_only 0 (zero_first_draws (2 * it init_state + 1)) init_state =
      Inr stalled_state"
    by (simp add: zero_first_draws_def init_fields body_stalled)
  with s' have "s' = stalled_state"
    by simp
  moreover have "waiting_time recover_only (1 / 2) init_state = Fin (ln 2)"
    by (simp add: waiting_time_def np_log_def W_tot_recover ln_div)
  ultimately show ?thesis
    using s' t hyp by (simp add: W_tot_recover init_fields)
qed

text \<open>
  Claim C7 as stated fails: in the run with \<open>rRecover = 1\<close> whose first draw is \<open>0\<close>
  (a value of \<open>[0, 1)\<close>), that draw is the \<open>r_1\<close> of the first iteration, and the
  recorded time is infinite.
\<close>

theorem zero_draw_is_used:
  "unit_draws zero_first_draws \<and> zero_first_draws 0 = 0 \<and>
   gillespie recover_only zero_first_draws = Inr stalled_state \<and>
   t_now stalled_state = PosInf \<and> it stalled_state = 1 \<and>
   recorded stalled_state = [row_of init_state, row_of stalled_state]"
  using recorded_body [OF body_stalled]
  by (simp add: unit_draws_examples zero_first_draws_def run_stalled stalled_fields recorded_init)

text \<open>
  Claim C8 (monotone sinks). Across the rows recorded by a run, and across the rows of
  the plotted slice, the columns \<open>S\<close> and \<open>D\<close> never decrease. An iteration changes
  \<open>S\<close> only through branch 7 (\<open>I \<rightarrow> S\<close>) and \<open>D\<close> only through branch 6
  (\<open>I \<rightarrow> D\<close>), each by exactly \<open>+1\<close>; the other branches leave both unchanged.
\<close>

theorem sinks_monotone:
  assumes "reachable rs u s"
  shows "sorted_wrt sink_le (recorded s) \<and> sorted_wrt sink_le (SIR s) \<and>
    (\<forall>r_1 r_2 s'. body rs r_1 r_2 s = Inr s' \<longrightarrow>
       n_S s' = (if guard7 rs s r_2 then n_S s + 1 else n_S s) \<and>
       n_D s' = (if guard6 rs s r_2 then n_D s + 1 else n_D s)) \<and>
    map n_S [W_to_R s, R_to_W s, R_to_I s, W_to_I s, I_to_W s, I_to_D s, I_to_S s] =
      [n_S s, n_S s, n_S s, n_S s, n_S s, n_S s, n_S s + 1] \<and>
    map n_D [W_to_R s, R_to_W s, R_to_I s, W_to_I s, I_to_W s, I_to_D s, I_to_S s] =
      [n_D s, n_D s, n_D s, n_D s, n_D s, n_D s + 1, n_D s]"
proof -
  have rec: "sorted_wrt sink_le (recorded s)"
    using reachable_sinks [OF assms] by simp
  then have "sorted_wrt sink_le (SIR s)"
    unfolding SIR_recorded [OF assms] by (rule sorted_wrt_butlast_snoc)
  moreover have "n_S s' = (if guard7 rs s r_2 then n_S s + 1 else n_S s) \<and>
       n_D s' = (if guard6 rs s r_2 then n_D s + 1 else n_D s)"
    if "body rs r_1 r_2 s = Inr s'" for r_1 r_2 s'
    using body_Inr(8,9) [OF that] by (simp only: fired_n_S fired_n_D)
  ultimately show ?thesis
    using rec by (simp add: branch_n_S branch_n_D)
qed

theorem sinks_monotone_witness:
  "reachable recover_only half_draws recovered_state \<and>
   sorted_wrt sink_le [row_of init_state, row_of recovered_state] \<and>
   nS (row_of init_state) = 0 \<and> nS (row_of recovered_state) = 1 \<and>
   nD (row_of init_state) = 0 \<and> nD (row_of recovered_state) = 0"
proof -
  have "sorted_wrt sink_le (recorded recovered_state)"
    using sinks_monotone [OF reachable_recovered] by (rule conjunct1)
  then show ?thesis
    using reachable_recovered
    by (simp add: recorded_recovered row_of_def init_fields recovered_fields)
qed



text \<open>
  Claim C10 (fixed initial state). The run depends on its arguments only through the
  seven rates: it starts the loop in one fixed state, with \<open>t = 0\<close>, \<open>W = 149\<close>,
  \<open>R = 50\<close>, \<open>I = 1\<close>, \<open>S = 0\<close>, \<open>D = 0\<close> (where \<open>W = N - I - R\<close>), population
  \<open>N = 200\<close>, horizon \<open>T = 100\<close> and a buffer of \<open>MAXITER = 10000\<close> rows, whatever the
  rates are, and the first recorded row of every run is this initial sample.
\<close>

theorem initial_state_fixed:
  "gillespie rs u = main_loop rs u init_state \<and>
   row_of init_state = \<lparr>time = Fin 0, nW = 149, nI = 1, nR = 50, nS = 0, nD = 0\<rparr> \<and>
   n_W init_state = N - n_I init_state - n_R init_state \<and> it init_state = 0 \<and>
   N = 200 \<and> T = 100 \<and> MAXITER = 10000 \<and> length (SIR_data init_state) = MAXITER \<and>
   (reachable rs u s \<longrightarrow> hd (recorded s) = row_of init_state \<and>
      SIR_data s ! 0 = row_of init_state)"
proof -
  have "hd (recorded s) = row_of init_state \<and> SIR_data s ! 0 = row_of init_state"
    if r: "reachable rs u s"
  proof -
    have "recorded s \<noteq> []"
      using reachable_last [OF r] by simp
    then have "hd (recorded s) = SIR_data s ! 0"
      unfolding recorded_def by (simp add: hd_conv_nth)
    with recorded_hd [OF r] show ?thesis by simp
  qed
  then show ?thesis
    by (simp add: gillespie_def init_fields row_of_def N_def T_def MAXITER_def)
qed

theorem initial_state_fixed_witness:
  "reachable recover_only half_draws recovered_state \<and>
   hd (recorded recovered_state) = \<lparr>time = Fin 0, nW = 149, nI = 1, nR = 50, nS = 0, nD = 0\<rparr> \<and>
   gillespie default_rates half_draws = main_loop default_rates half_draws init_state \<and>
   gillespie recover_only half_draws = main_loop recover_only half_draws init_state"
proof -
  note a = initial_state_fixed [of recover_only half_draws recovered_state]
  note b = initial_state_fixed [of default_rates half_draws recovered_state]
  from a have "row_of init_state = \<lparr>time = Fin 0, nW = 149, nI = 1, nR = 50, nS = 0, nD = 0\<rparr>"
    and "gillespie recover_only half_draws = main_loop recover_only half_draws init_state"
    and "reachable recover_only half_draws recovered_state \<longrightarrow>
      hd (recorded recovered_state) = row_of init_state \<and>
      SIR_data recovered_state ! 0 = row_of init_state"
    by blast+
  moreover from b
  have "gillespie default_rates half_draws = main_loop default_rates half_draws init_state"
    by blast
  ultimately show ?thesis
    using reachable_recovered by simp
qed

end
